theory Spec2Isabelle
  imports Main "HOL-Library.Sublist"
begin

section \<open>Strings\<close>

text \<open>
  Go strings are byte sequences; \<^typ>\<open>string\<close> is a list of 8-bit characters, so a
  string of the source is modelled by the list of its UTF-8 bytes.
\<close>

text \<open>
  \<^verbatim>\<open>strings.Contains(s, substr)\<close>: \<open>substr\<close> occurs in \<open>s\<close> as a contiguous
  block of bytes, compared byte by byte (so the test is case-sensitive).
\<close>

fun Contains :: "string \<Rightarrow> string \<Rightarrow> bool" where
  "Contains [] substr = (substr = [])"
| "Contains (c # cs) substr = (prefix substr (c # cs) \<or> Contains cs substr)"

text \<open>
  \<^verbatim>\<open>strings.Replace(s, old, new, -1)\<close>: every non-overlapping occurrence of
  \<open>old\<close>, found from the left, is replaced by \<open>new\<close>. With an empty \<open>old\<close> Go inserts
  \<open>new\<close> at every rune boundary; the only call of the source whose \<open>old\<close> can be empty
  (line 108, the text of a link) has an empty \<open>new\<close>, where that insertion gives \<open>s\<close> back.
\<close>

function Replace :: "string \<Rightarrow> string \<Rightarrow> string \<Rightarrow> string" where
  "Replace s old new =
     (if old = [] \<or> s = [] then s
      else if prefix old s then new @ Replace (drop (length old) s) old new
      else hd s # Replace (tl s) old new)"
  by pat_completeness auto
termination
  by (relation "measure (\<lambda>(s, old, new). length s)") auto

declare Replace.simps [simp del]

text \<open>
  The class \<^verbatim>\<open>\s\<close> of Go's regexp syntax is \<^verbatim>\<open>[\t\n\f\r ]\<close>.
\<close>

definition is_space :: "char \<Rightarrow> bool" where
  "is_space c \<longleftrightarrow> c \<in> {CHR 0x09, CHR 0x0A, CHR 0x0C, CHR 0x0D, CHR '' ''}"

text \<open>
  \<^verbatim>\<open>multipleSpaces.ReplaceAllString(s, " ")\<close> with
  \<^verbatim>\<open>multipleSpaces = regexp.MustCompile(`\s+`)\<close>: every maximal run of
  whitespace bytes becomes one space, everything else is copied.
\<close>

function multipleSpaces_ReplaceAllString :: "string \<Rightarrow> string" where
  "multipleSpaces_ReplaceAllString [] = []"
| "multipleSpaces_ReplaceAllString (c # cs) =
     (if is_space c then CHR '' '' # multipleSpaces_ReplaceAllString (dropWhile is_space cs)
      else c # multipleSpaces_ReplaceAllString cs)"
  by pat_completeness auto
termination
  by (relation "measure length") (auto simp: length_dropWhile_le less_Suc_eq_le)

text \<open>
  \<^verbatim>\<open>strings.Trim(s, cutset)\<close>: the leading and the trailing bytes that occur in
  \<open>cutset\<close> are removed (the source's cutset is the single ASCII space).
\<close>

definition Trim :: "string \<Rightarrow> string \<Rightarrow> string" where
  "Trim s cutset =
     rev (dropWhile (\<lambda>c. c \<in> set cutset) (rev (dropWhile (\<lambda>c. c \<in> set cutset) s)))"

text \<open>Lines 111 to 113 of \<^verbatim>\<open>refreshSchedule\<close>: the normalisation of the league text.\<close>

definition normalize :: "string \<Rightarrow> string" where
  "normalize league =
     Trim (multipleSpaces_ReplaceAllString (Replace league [CHR 0x0A] '' '')) '' ''"


section \<open>Dates: \<^verbatim>\<open>time.Parse\<close> and \<^verbatim>\<open>Time.Format\<close>\<close>

text \<open>
  Line 97 parses the day-header's date with the layout \<^verbatim>\<open>"2006-01-02"\<close> and line 98
  formats the result with \<^verbatim>\<open>"2006-01-02 - "\<close> and \<^verbatim>\<open>"Monday"\<close>. The values that
  flow between the two calls are midnights in UTC, kept here in civil form.
\<close>

record date =
  Year :: nat
  Month :: nat
  Day :: nat

text \<open>The zero \<^verbatim>\<open>time.Time\<close>, which \<^verbatim>\<open>time.Parse\<close> returns beside an error.\<close>

definition zero_Time :: date where
  "zero_Time = \<lparr>Year = 1, Month = 1, Day = 1\<rparr>"

definition isDigit :: "char \<Rightarrow> bool" where
  "isDigit c \<longleftrightarrow> 48 \<le> (of_char c :: nat) \<and> (of_char c :: nat) \<le> 57"

definition digit_val :: "char \<Rightarrow> nat" where
  "digit_val c = of_char c - 48"

definition isLeap :: "nat \<Rightarrow> bool" where
  "isLeap y \<longleftrightarrow> y mod 4 = 0 \<and> (y mod 100 \<noteq> 0 \<or> y mod 400 = 0)"

definition daysBefore :: "nat list" where
  "daysBefore = [0, 31, 59, 90, 120, 151, 181, 212, 243, 273, 304, 334, 365]"

definition daysIn :: "nat \<Rightarrow> nat \<Rightarrow> nat" where
  "daysIn m y = (if m = 2 \<and> isLeap y then 29 else daysBefore ! m - daysBefore ! (m - 1))"

text \<open>
  \<^verbatim>\<open>time.Parse("2006-01-02", value)\<close>: four digits, a hyphen, two digits, a hyphen, two
  digits and nothing after them; the month must lie in 1..12 and the day in
  1..\<open>daysIn\<close>. \<open>None\<close> stands for the returned error.
\<close>

fun Parse :: "string \<Rightarrow> date option" where
  "Parse [y1, y2, y3, y4, p, m1, m2, q, d1, d2] =
     (if isDigit y1 \<and> isDigit y2 \<and> isDigit y3 \<and> isDigit y4 \<and> p = CHR ''-''
         \<and> isDigit m1 \<and> isDigit m2 \<and> q = CHR ''-'' \<and> isDigit d1 \<and> isDigit d2
      then
        (let y = 1000 * digit_val y1 + 100 * digit_val y2 + 10 * digit_val y3 + digit_val y4;
             m = 10 * digit_val m1 + digit_val m2;
             d = 10 * digit_val d1 + digit_val d2
         in if m = 0 \<or> 12 < m then None
            else if d < 1 \<or> daysIn m y < d then None
            else Some \<lparr>Year = y, Month = m, Day = d\<rparr>)
      else None)"
| "Parse _ = None"

definition digit_char :: "nat \<Rightarrow> char" where
  "digit_char n = char_of (48 + n)"

function itoa :: "nat \<Rightarrow> string" where
  "itoa n = (if n < 10 then [digit_char n] else itoa (n div 10) @ [digit_char (n mod 10)])"
  by pat_completeness auto
termination
  by (relation "measure id") auto

declare itoa.simps [simp del]

text \<open>\<^verbatim>\<open>appendInt\<close> of package time, for a value that is not negative: decimal digits,
  padded with zeros on the left up to \<open>width\<close>.\<close>

definition appendInt :: "nat \<Rightarrow> nat \<Rightarrow> string" where
  "appendInt x width = replicate (width - length (itoa x)) (CHR ''0'') @ itoa x"

text \<open>\<^verbatim>\<open>t.Format("2006-01-02 - ")\<close>.\<close>

definition Format_date :: "date \<Rightarrow> string" where
  "Format_date t =
     appendInt (Year t) 4 @ ''-'' @ appendInt (Month t) 2 @ ''-'' @ appendInt (Day t) 2 @ '' - ''"

text \<open>
  The number of days from 0001-01-01 to the first of January of a year, by cycles of
  400, 100 and 4 years as \<^verbatim>\<open>time.Date\<close> counts them. (Go counts from a year that lies
  a multiple of 400 years earlier, which is a whole number of weeks.)
\<close>

definition daysSinceEpoch :: "nat \<Rightarrow> int" where
  "daysSinceEpoch year =
     (let y = int year - 1;
          n400 = y div 400; y1 = y - 400 * n400;
          n100 = y1 div 100; y2 = y1 - 100 * n100;
          n4 = y2 div 4; y3 = y2 - 4 * n4
      in 146097 * n400 + 36524 * n100 + 1461 * n4 + 365 * y3)"

definition days_of :: "date \<Rightarrow> int" where
  "days_of t =
     daysSinceEpoch (Year t) + int (daysBefore ! (Month t - 1))
       + (if isLeap (Year t) \<and> 3 \<le> Month t then 1 else 0) + (int (Day t) - 1)"

text \<open>\<^verbatim>\<open>t.Weekday()\<close>, Sunday being 0; 0001-01-01 is a Monday.\<close>

definition Weekday :: "date \<Rightarrow> nat" where
  "Weekday t = nat ((days_of t + 1) mod 7)"

definition longDayNames :: "string list" where
  "longDayNames =
     [''Sunday'', ''Monday'', ''Tuesday'', ''Wednesday'', ''Thursday'', ''Friday'', ''Saturday'']"

text \<open>\<^verbatim>\<open>t.Format("Monday")\<close>.\<close>

definition Format_Monday :: "date \<Rightarrow> string" where
  "Format_Monday t = longDayNames ! Weekday t"

section \<open>The configuration of \<^verbatim>\<open>main.go\<close>\<close>

definition daysToShow :: nat where
  "daysToShow = 10"

text \<open>Durations are nanoseconds, as in Go: \<^verbatim>\<open>cacheDuration = 10 * time.Hour\<close>.\<close>

definition Hour :: int where
  "Hour = 3600 * 1000000000"

definition cacheDuration :: int where
  "cacheDuration = 10 * Hour"

definition leagues :: "string list" where
  "leagues = [''Premier League'']"

text \<open>The Swedish names of the source are UTF-8: \<open>0xC3 0xA5\<close> and \<open>0xC3 0xB6\<close>
  are its two letters outside ASCII.\<close>

definition dayNames :: "(string \<times> string) list" where
  "dayNames =
     [(''Monday'', ''M'' @ [CHR 0xC3, CHR 0xA5] @ ''ndag''),
      (''Tuesday'', ''Tisdag''),
      (''Wednesday'', ''Onsdag''),
      (''Thursday'', ''Torsdag''),
      (''Friday'', ''Fredag''),
      (''Saturday'', ''L'' @ [CHR 0xC3, CHR 0xB6] @ ''rdag''),
      (''Sunday'', ''S'' @ [CHR 0xC3, CHR 0xB6] @ ''ndag'')]"

text \<open>Indexing a Go map with a key it does not hold gives the zero value, the empty string.\<close>

definition dayNames_at :: "string \<Rightarrow> string" where
  "dayNames_at k = (case map_of dayNames k of None \<Rightarrow> [] | Some v \<Rightarrow> v)"


section \<open>The document as the queries of \<^verbatim>\<open>refreshSchedule\<close> see it\<close>

text \<open>
  The parser reads the page through goquery selections only. A football row
  (\<^verbatim>\<open>.sport-name-fotboll\<close>) is what lines 104 to 132 read from it: the text of
  \<^verbatim>\<open>.match-name\<close>, the text of \<^verbatim>\<open>.league\<close>, the texts of the links inside
  \<^verbatim>\<open>.league\<close>, the \<^verbatim>\<open>title\<close> attribute of \<^verbatim>\<open>.channel .channel-item\<close> (absent or
  present) and the text of \<^verbatim>\<open>.time .field-content\<close>. A day-header
  (\<^verbatim>\<open>h2.day-name\<close>) is the \<^verbatim>\<open>id\<close> attribute of its \<^verbatim>\<open>span.day-name-inner\<close> and the
  football rows of its next sibling, in document order.
\<close>

record row =
  match_name :: string
  league_text :: string
  league_links :: "string list"
  channel_title :: "string option"
  time_text :: string

record day_header =
  day_id :: "string option"
  day_rows :: "row list"

record match =
  Name :: string
  League :: string
  Channel :: string
  Time :: string

type_synonym schedule = "string \<rightharpoonup> match list"

text \<open>\<^verbatim>\<open>Attr\<close> returns the value and whether it exists; the source drops the flag and
  keeps the value, which is empty for a missing attribute.\<close>

definition Attr :: "string option \<Rightarrow> string" where
  "Attr a = (case a of None \<Rightarrow> [] | Some v \<Rightarrow> v)"

text \<open>Lines 107 to 109: the text of every link is removed from the league, link by link.\<close>

fun strip_links :: "string \<Rightarrow> string list \<Rightarrow> string" where
  "strip_links league [] = league"
| "strip_links league (a # as) = strip_links (Replace league a []) as"

text \<open>Lines 105 to 113: the league of a row, as the filter sees it and as the record keeps it.\<close>

definition row_league :: "row \<Rightarrow> string" where
  "row_league ms = normalize (strip_links (league_text ms) (league_links ms))"

text \<open>Lines 115 to 123: the loop over \<^verbatim>\<open>leagues\<close>, left at the first hit.\<close>

fun interested :: "string \<Rightarrow> string list \<Rightarrow> bool" where
  "interested league [] = False"
| "interested league (l # ls) = (if Contains league l then True else interested league ls)"

text \<open>Lines 104 to 139 up to the append: the record a row gives, or none when line 126
  returns.\<close>

definition row_match :: "row \<Rightarrow> match option" where
  "row_match ms =
     (let name = match_name ms;
          league = row_league ms
      in if \<not> interested league leagues then None
         else Some \<lparr>Name = name, League = league,
                     Channel = Attr (channel_title ms), Time = time_text ms\<rparr>)"

text \<open>Line 134: \<^verbatim>\<open>schedule[date] = append(schedule[date], m)\<close>; a key that is not in the map
  reads as the nil slice.\<close>

definition append_match :: "schedule \<Rightarrow> string \<Rightarrow> match \<Rightarrow> schedule" where
  "append_match sch date m = sch(date \<mapsto> (case sch date of None \<Rightarrow> [] | Some l \<Rightarrow> l) @ [m])"

fun each_row :: "string \<Rightarrow> row list \<Rightarrow> schedule \<Rightarrow> schedule" where
  "each_row date [] sch = sch"
| "each_row date (ms # mss) sch =
     each_row date mss (case row_match ms of None \<Rightarrow> sch | Some m \<Rightarrow> append_match sch date m)"

text \<open>Lines 93 to 98: the key of a day. The error of \<^verbatim>\<open>time.Parse\<close> is dropped and the
  zero time formatted in its place.\<close>

definition day_date :: "day_header \<Rightarrow> string" where
  "day_date s = Replace (Attr (day_id s)) ''match-day-'' []"

definition day_time :: "day_header \<Rightarrow> date" where
  "day_time s = (case Parse (day_date s) of None \<Rightarrow> zero_Time | Some t \<Rightarrow> t)"

definition day_label :: "day_header \<Rightarrow> string" where
  "day_label s = Format_date (day_time s) @ dayNames_at (Format_Monday (day_time s))"

text \<open>Lines 93 to 140: the body of the outer \<^verbatim>\<open>Each\<close> below its guard.\<close>

definition day_body :: "day_header \<Rightarrow> schedule \<Rightarrow> schedule" where
  "day_body s sch = (let date = day_label s in each_row date (day_rows s) (sch(date \<mapsto> [])))"

text \<open>Lines 88 to 141: \<^verbatim>\<open>days.Each\<close> calls the function on every header with its index;
  from index \<open>daysToShow\<close> on the function returns at once.\<close>

fun each_day :: "nat \<Rightarrow> day_header list \<Rightarrow> schedule \<Rightarrow> schedule" where
  "each_day i [] sch = sch"
| "each_day i (s # ss) sch =
     each_day (Suc i) ss (if i \<ge> daysToShow then sch else day_body s sch)"

section \<open>The cache: \<^verbatim>\<open>refreshSchedule\<close> and \<^verbatim>\<open>refreshScheduleIfNeeded\<close>\<close>

text \<open>
  What the network gives to one call of \<^verbatim>\<open>refreshSchedule\<close>: \<^verbatim>\<open>client.Get\<close> fails, or
  it returns a response, from which \<^verbatim>\<open>goquery.NewDocumentFromResponse\<close> gives an error
  (and a nil document) or a document, seen as its day-headers in document order.
\<close>

datatype document = ParseFailed string | Document "day_header list"

datatype fetched = GetFailed string | Response document

text \<open>
  The package variables \<^verbatim>\<open>schedule\<close> and \<^verbatim>\<open>lastRefresh\<close>, with what the code does to the
  outside: \<open>fetches\<close> counts the calls of \<^verbatim>\<open>client.Get\<close> and \<open>errors\<close> keeps the
  messages sent with \<^verbatim>\<open>http.Error\<close>. An instant is a number of nanoseconds since the
  zero \<^verbatim>\<open>time.Time\<close>, so \<open>lastRefresh\<close> starts at 0.
\<close>

record cache =
  schedule :: schedule
  lastRefresh :: int
  fetches :: nat
  errors :: "string list"

datatype outcome = Returned | Panicked

definition init_cache :: cache where
  "init_cache = \<lparr>schedule = Map.empty, lastRefresh = 0, fetches = 0, errors = []\<rparr>"

text \<open>Lines 63 to 67: the deferred function, run on every way out of \<^verbatim>\<open>refreshSchedule\<close>,
  a panic included.\<close>

definition deferred :: "int \<Rightarrow> cache \<Rightarrow> cache" where
  "deferred now c = c\<lparr>lastRefresh := now\<rparr>"

text \<open>
  \<^verbatim>\<open>refreshSchedule\<close>, given what the fetch brings and the clock at the deferred function.
  After a parse error line 82 has no \<^verbatim>\<open>return\<close>: line 84 replaces the schedule by an
  empty map and line 87 calls \<^verbatim>\<open>Find\<close> on the nil document, which panics.
\<close>

definition refreshSchedule :: "fetched \<Rightarrow> int \<Rightarrow> cache \<Rightarrow> outcome \<times> cache" where
  "refreshSchedule got now c =
     (let c1 = c\<lparr>fetches := fetches c + 1\<rparr> in
      case got of
        GetFailed err \<Rightarrow> (Returned, deferred now (c1\<lparr>errors := errors c1 @ [err]\<rparr>))
      | Response (ParseFailed err) \<Rightarrow>
          (let c2 = c1\<lparr>errors := errors c1 @ [err]\<rparr>;
               c3 = c2\<lparr>schedule := Map.empty\<rparr>
           in (Panicked, deferred now c3))
      | Response (Document days) \<Rightarrow>
          (let c2 = c1\<lparr>schedule := Map.empty\<rparr>;
               c3 = c2\<lparr>schedule := each_day 0 days (schedule c2)\<rparr>
           in (Returned, deferred now c3)))"

text \<open>\<^verbatim>\<open>t.Sub(u)\<close>: the difference as a \<^verbatim>\<open>Duration\<close>, an int64, held at its least and
  greatest value.\<close>

definition maxDuration :: int where
  "maxDuration = 2 ^ 63 - 1"

definition minDuration :: int where
  "minDuration = - (2 ^ 63)"

definition Sub :: "int \<Rightarrow> int \<Rightarrow> int" where
  "Sub t u =
     (let d = t - u
      in if d > maxDuration then maxDuration else if d < minDuration then minDuration else d)"

text \<open>\<^verbatim>\<open>refreshScheduleIfNeeded\<close>; \<open>now\<close> is the clock read by \<^verbatim>\<open>time.Since\<close> and \<open>now'\<close>
  the clock at the end of the refresh.\<close>

definition refreshScheduleIfNeeded :: "int \<Rightarrow> fetched \<Rightarrow> int \<Rightarrow> cache \<Rightarrow> outcome \<times> cache" where
  "refreshScheduleIfNeeded now got now' c =
     (let elapsed = Sub now (lastRefresh c)
      in if elapsed > cacheDuration then refreshSchedule got now' c else (Returned, c))"


section \<open>Concurrent requests\<close>

text \<open>
  Every request runs \<^verbatim>\<open>refreshScheduleIfNeeded\<close> on its own goroutine. A request is
  \<open>Checking\<close> before line 146, \<open>Waiting\<close> at \<^verbatim>\<open>mu.Lock()\<close> on line 62 once it has seen
  the cache expired, \<open>Holding\<close> between the lock and the deferred function, and
  \<open>Finished\<close> after. Line 146 reads \<^verbatim>\<open>lastRefresh\<close> without the lock; the lock is taken
  on line 62 and released by the deferred function, so the body of \<^verbatim>\<open>refreshSchedule\<close>
  is one step of the request that holds it.
\<close>

datatype pc = Checking | Waiting | Holding | Finished

record system =
  shared :: cache
  locked :: bool
  pcs :: "pc list"

text \<open>One step of request \<open>i\<close>, with the clock it reads and what its fetch would bring.
  A request waiting for a taken lock does not move.\<close>

definition step :: "nat \<times> int \<times> fetched \<Rightarrow> system \<Rightarrow> system" where
  "step ev s =
     (case ev of (i, now, got) \<Rightarrow>
        (if i \<ge> length (pcs s) then s
         else (case pcs s ! i of
           Checking \<Rightarrow>
             (s\<lparr>pcs := (pcs s)[i := (if Sub now (lastRefresh (shared s)) > cacheDuration
                                     then Waiting else Finished)]\<rparr>)
         | Waiting \<Rightarrow>
             (if locked s then s else (s\<lparr>locked := True, pcs := (pcs s)[i := Holding]\<rparr>))
         | Holding \<Rightarrow>
             (s\<lparr>shared := snd (refreshSchedule got now (shared s)), locked := False,
               pcs := (pcs s)[i := Finished]\<rparr>)
         | Finished \<Rightarrow> s)))"

definition run :: "(nat \<times> int \<times> fetched) list \<Rightarrow> system \<Rightarrow> system" where
  "run evs s = fold step evs s"

text \<open>The requests that have seen the cache expired and have not refreshed yet.\<close>

definition pending :: "system \<Rightarrow> nat" where
  "pending s = length (filter (\<lambda>p. p = Waiting \<or> p = Holding) (pcs s))"

text \<open>The requests that are between \<^verbatim>\<open>mu.Lock()\<close> and the deferred \<^verbatim>\<open>mu.Unlock()\<close>.\<close>

definition holding :: "system \<Rightarrow> nat" where
  "holding s = length (filter (\<lambda>p. p = Holding) (pcs s))"


section \<open>Notions used to state the properties\<close>

text \<open>The records of the rows of a day, in row order, and the entry a day-header gives.\<close>

definition day_matches :: "day_header \<Rightarrow> match list" where
  "day_matches s = List.map_filter row_match (day_rows s)"

definition day_entry :: "day_header \<Rightarrow> string \<times> match list" where
  "day_entry s = (day_label s, day_matches s)"

text \<open>The seven Swedish names of \<^verbatim>\<open>dayNames\<close>.\<close>

definition weekdays_sv :: "string list" where
  "weekdays_sv = map snd dayNames"

text \<open>
  A string in which every whitespace byte is a single space that is followed by a byte
  that is not whitespace, when one follows.
\<close>

fun spaced :: "string \<Rightarrow> bool" where
  "spaced [] = True"
| "spaced [c] = (is_space c \<longrightarrow> c = CHR '' '')"
| "spaced (c # d # cs) = ((is_space c \<longrightarrow> c = CHR '' '' \<and> \<not> is_space d) \<and> spaced (d # cs))"

section \<open>Sample inputs\<close>

text \<open>A Premier League row whose league text carries the round in a link, with the
  record it gives; a Ligue 1 row with no channel title; a page of two days, the first
  with a date that does not parse; a day on the 29th of February; a row whose league is
  written in lower case and one whose league has the configured league as a proper part.\<close>

definition premier_row :: row where
  "premier_row = \<lparr>match_name = ''Arsenal - Chelsea'',
            league_text = ''Premier League'' @ [CHR 0x0A] @ ''  Round 5'',
            league_links = [''Round 5''], channel_title = Some ''Viasat Sport'',
            time_text = ''16:00''\<rparr>"

definition ligue1_row :: row where
  "ligue1_row = \<lparr>match_name = ''PSG - Lyon'', league_text = ''Ligue 1'', league_links = [],
            channel_title = None, time_text = ''21:00''\<rparr>"

definition premier_match :: match where
  "premier_match = \<lparr>Name = ''Arsenal - Chelsea'', League = ''Premier League'',
            Channel = ''Viasat Sport'', Time = ''16:00''\<rparr>"

definition two_days :: "day_header list" where
  "two_days = [\<lparr>day_id = Some ''match-day-tomorrow'', day_rows = [ligue1_row]\<rparr>,
               \<lparr>day_id = Some ''match-day-2024-01-01'', day_rows = [ligue1_row, premier_row]\<rparr>]"

definition leap_day :: day_header where
  "leap_day = \<lparr>day_id = Some ''match-day-2024-02-29'', day_rows = []\<rparr>"

definition lower_row :: row where
  "lower_row = \<lparr>match_name = ''Leeds - Hull'', league_text = ''premier league'',
            league_links = [], channel_title = Some ''TV4'', time_text = ''13:30''\<rparr>"

definition premier2_row :: row where
  "premier2_row = \<lparr>match_name = ''Everton U21 - Fulham U21'', league_text = ''Premier League 2'',
            league_links = [], channel_title = None, time_text = ''20:00''\<rparr>"

text \<open>The instant 2024-01-01T00:00:00Z, 738885 days after the zero time, in nanoseconds.\<close>

definition new_year_2024 :: int where
  "new_year_2024 = 63839664000000000000"

text \<open>A cache that holds one day with one match, refreshed at that instant.\<close>

definition filled_cache :: cache where
  "filled_cache =
     \<lparr>schedule = [''2024-01-01 - M'' @ [CHR 0xC3, CHR 0xA5] @ ''ndag'' \<mapsto> [premier_match]],
      lastRefresh = new_year_2024, fetches = 1, errors = []\<rparr>"

text \<open>Two requests that meet the initial cache, and an interleaving of their steps: both
  check, the first takes the lock, the second finds it taken, the first refreshes, then
  the second takes the lock and refreshes.\<close>

definition two_requests :: system where
  "two_requests = \<lparr>shared = init_cache, locked = False, pcs = [Checking, Checking]\<rparr>"

definition stampede :: "(nat \<times> int \<times> fetched) list" where
  "stampede =
     [(0, new_year_2024 + 1, Response (Document two_days)),
      (1, new_year_2024 + 2, Response (Document two_days)),
      (0, new_year_2024 + 3, Response (Document two_days)),
      (1, new_year_2024 + 4, Response (Document two_days)),
      (0, new_year_2024 + 5, Response (Document two_days)),
      (1, new_year_2024 + 6, Response (Document two_days)),
      (1, new_year_2024 + 7, Response (Document two_days))]"

section \<open>Strings: facts\<close>

lemma Replace_absent: "\<not> Contains s old \<Longrightarrow> Replace s old new = s"
proof (induction s old new rule: Replace.induct)
  case (1 s old new)
  show ?case
  proof (cases "old = [] \<or> s = []")
    case True
    then show ?thesis by (simp add: Replace.simps)
  next
    case False
    then obtain c cs where s: "s = c # cs" by (cases s) auto
    from "1.prems" s have np: "\<not> prefix old s" and nc: "\<not> Contains (tl s) old" by auto
    from "1.IH"(2)[OF False np nc] False np s show ?thesis
      by (subst Replace.simps) simp
  qed
qed

lemma Contains_single: "Contains s [c] \<longleftrightarrow> c \<in> set s"
  by (induction s) auto

lemma spaced_collapse: "spaced (multipleSpaces_ReplaceAllString s)"
proof (induction s rule: multipleSpaces_ReplaceAllString.induct)
  case 1
  then show ?case by simp
next
  case (2 c cs)
  show ?case
  proof (cases "is_space c")
    case True
    have h: "spaced (multipleSpaces_ReplaceAllString (dropWhile is_space cs))"
      using 2 True by simp
    show ?thesis
    proof (cases "dropWhile is_space cs")
      case Nil
      then show ?thesis using True by (simp del: dropWhile_eq_Nil_conv)
    next
      case (Cons d ds)
      then have nd: "\<not> is_space d" by (metis hd_dropWhile list.sel(1) list.distinct(1))
      with True Cons h show ?thesis by simp
    qed
  next
    case False
    with 2 show ?thesis by (cases cs) auto
  qed
qed

lemma collapse_space:
  "is_space c \<Longrightarrow> multipleSpaces_ReplaceAllString (c # cs)
     = CHR '' '' # multipleSpaces_ReplaceAllString (dropWhile is_space cs)"
  by simp

lemma collapse_other:
  "\<not> is_space c \<Longrightarrow> multipleSpaces_ReplaceAllString (c # cs)
     = c # multipleSpaces_ReplaceAllString cs"
  by simp

lemma collapse_spaced: "spaced s \<Longrightarrow> multipleSpaces_ReplaceAllString s = s"
proof (induction s rule: spaced.induct)
  case 1
  then show ?case by simp
next
  case (2 c)
  then show ?case by simp
next
  case (3 c d cs)
  then have IH: "multipleSpaces_ReplaceAllString (d # cs) = d # cs" by simp
  show ?case
  proof (cases "is_space c")
    case True
    with 3 have c: "c = CHR '' ''" and d: "\<not> is_space d" by simp_all
    have "dropWhile is_space (d # cs) = d # cs" using d by simp
    then show ?thesis using collapse_space[OF True, of "d # cs"] IH c by simp
  next
    case False
    then show ?thesis using collapse_other[OF False, of "d # cs"] IH by simp
  qed
qed

lemma spaced_no_nl: "spaced s \<Longrightarrow> CHR 0x0A \<notin> set s"
  by (induction s rule: spaced.induct) (auto simp: is_space_def)

lemma spaced_tl: "spaced (c # cs) \<Longrightarrow> spaced cs"
  by (cases cs) auto

lemma spaced_dropWhile: "spaced s \<Longrightarrow> spaced (dropWhile P s)"
  by (induction s) (auto dest: spaced_tl)

lemma spaced_butlast: "spaced s \<Longrightarrow> spaced (butlast s)"
  by (induction s rule: spaced.induct) (auto split: if_splits)

lemma spaced_rev_dropWhile_rev: "spaced s \<Longrightarrow> spaced (rev (dropWhile P (rev s)))"
proof (induction s rule: rev_induct)
  case Nil
  then show ?case by simp
next
  case (snoc x xs)
  have "spaced xs" using spaced_butlast[OF snoc.prems] by simp
  with snoc show ?case by (cases "P x") simp_all
qed

lemma rtrim_Cons:
  "\<not> P x \<Longrightarrow> rev (dropWhile P (rev (x # xs))) = x # rev (dropWhile P (rev xs))"
  by (simp add: dropWhile_append)

lemma Trim_Trim: "Trim (Trim s cutset) cutset = Trim s cutset"
proof -
  let ?P = "\<lambda>c. c \<in> set cutset"
  let ?a = "dropWhile ?P s"
  let ?b = "rev (dropWhile ?P (rev ?a))"
  have front: "dropWhile ?P ?b = ?b"
  proof (cases ?a)
    case Nil
    then show ?thesis by (simp del: dropWhile_eq_Nil_conv)
  next
    case (Cons x xs)
    then have "\<not> ?P x" using hd_dropWhile[of ?P s] by simp
    then have "?b = x # rev (dropWhile ?P (rev xs))"
      unfolding Cons by (rule rtrim_Cons)
    then show ?thesis using \<open>\<not> ?P x\<close> by simp
  qed
  have "Trim (Trim s cutset) cutset = rev (dropWhile ?P (rev (dropWhile ?P ?b)))"
    by (simp only: Trim_def)
  also have "\<dots> = rev (dropWhile ?P (rev ?b))" by (simp only: front)
  also have "\<dots> = ?b" by (simp only: rev_rev_ident dropWhile_idem)
  finally show ?thesis by (simp only: Trim_def)
qed

section \<open>Dates: facts\<close>

lemma new_year_2024_days:
  "new_year_2024 = days_of \<lparr>Year = 2024, Month = 1, Day = 1\<rparr> * 86400 * 1000000000"
  by code_simp

lemma digit_char_val: "isDigit c \<Longrightarrow> digit_char (digit_val c) = c"
  by (simp add: isDigit_def digit_char_def digit_val_def)

lemma digit_val_lt: "isDigit c \<Longrightarrow> digit_val c < 10"
  by (auto simp: isDigit_def digit_val_def)

lemma digit_char_0: "digit_char 0 = CHR ''0''"
  by code_simp

lemma itoa_small: "n < 10 \<Longrightarrow> itoa n = [digit_char n]"
  by (subst itoa.simps) simp

lemma itoa_step: "0 < q \<Longrightarrow> r < 10 \<Longrightarrow> itoa (10 * q + r) = itoa q @ [digit_char r]"
  by (subst itoa.simps) simp

lemma appendInt_small: "a < 10 \<Longrightarrow> appendInt a (Suc 0) = [digit_char a]"
  by (simp add: appendInt_def itoa_small)

lemma appendInt_step:
  "r < 10 \<Longrightarrow> 0 < w \<Longrightarrow> appendInt (10 * q + r) (Suc w) = appendInt q w @ [digit_char r]"
proof (cases "q = 0")
  case True
  assume "r < 10" "0 < w"
  then obtain v where "w = Suc v" by (cases w) auto
  with True \<open>r < 10\<close> show ?thesis
    by (simp add: appendInt_def itoa_small digit_char_0 replicate_append_same)
next
  case False
  assume "r < 10"
  with False show ?thesis by (simp add: appendInt_def itoa_step)
qed

lemma appendInt_2':
  assumes "a < 10" "b < 10"
  shows "appendInt (10 * a + b) (Suc (Suc 0)) = [digit_char a, digit_char b]"
proof -
  have "appendInt (10 * a + b) (Suc (Suc 0)) = appendInt a (Suc 0) @ [digit_char b]"
    using assms by (intro appendInt_step) simp_all
  then show ?thesis by (simp only: appendInt_small[OF assms(1)] append.simps)
qed

lemma appendInt_2: "a < 10 \<Longrightarrow> b < 10 \<Longrightarrow> appendInt (10 * a + b) 2 = [digit_char a, digit_char b]"
  using appendInt_2' by (simp only: numeral_2_eq_2)

lemma appendInt_4:
  assumes "a < 10" "b < 10" "c < 10" "d < 10"
  shows "appendInt (1000 * a + 100 * b + 10 * c + d) 4
           = [digit_char a, digit_char b, digit_char c, digit_char d]"
proof -
  have e: "1000 * a + 100 * b + 10 * c + d = 10 * (10 * (10 * a + b) + c) + d" by simp
  have w: "(4::nat) = Suc (Suc (Suc (Suc 0)))" by simp
  have "appendInt (10 * (10 * (10 * a + b) + c) + d) (Suc (Suc (Suc (Suc 0))))
          = appendInt (10 * (10 * a + b) + c) (Suc (Suc (Suc 0))) @ [digit_char d]"
    using assms by (intro appendInt_step) simp_all
  also have "appendInt (10 * (10 * a + b) + c) (Suc (Suc (Suc 0)))
          = appendInt (10 * a + b) (Suc (Suc 0)) @ [digit_char c]"
    using assms by (intro appendInt_step) simp_all
  also have "appendInt (10 * a + b) (Suc (Suc 0)) = [digit_char a, digit_char b]"
    using assms by (intro appendInt_2')
  finally show ?thesis by (simp only: e w append.simps)
qed

lemma Parse_Format: "Parse v = Some t \<Longrightarrow> Format_date t = v @ '' - ''"
proof (erule Parse.elims, goal_cases)
  case (1 y1 y2 y3 y4 p m1 m2 q d1 d2)
  then show ?case
    by (auto simp: Let_def Format_date_def appendInt_4 appendInt_2 digit_val_lt digit_char_val
             split: if_splits)
qed simp_all

lemma Weekday_lt: "Weekday t < 7"
  by (simp add: Weekday_def nat_less_iff)

lemma dayNames_at_long:
  assumes "n < 7"
  shows "map_of dayNames (longDayNames ! n) \<noteq> None \<and> dayNames_at (longDayNames ! n) \<noteq> []
         \<and> dayNames_at (longDayNames ! n) \<in> set weekdays_sv"
proof -
  from assms have "n = 0 \<or> n = 1 \<or> n = 2 \<or> n = 3 \<or> n = 4 \<or> n = 5 \<or> n = 6" by arith
  then show ?thesis
    by (elim disjE) (simp_all add: longDayNames_def dayNames_at_def dayNames_def weekdays_sv_def)
qed

lemma zero_label: "Format_date zero_Time @ dayNames_at (Format_Monday zero_Time)
   = ''0001-01-01 - M'' @ [CHR 0xC3, CHR 0xA5] @ ''ndag''"
  by code_simp

section \<open>The parser: facts\<close>

lemma interested_iff: "interested league ls \<longleftrightarrow> (\<exists>l \<in> set ls. Contains league l)"
  by (induction ls) auto

lemma each_row_entry:
  "sch date = Some l \<Longrightarrow>
   each_row date rows sch = sch(date \<mapsto> l @ List.map_filter row_match rows)"
proof (induction rows arbitrary: sch l)
  case Nil
  then show ?case by (simp add: map_filter_simps fun_upd_idem)
next
  case (Cons ms mss)
  show ?case
  proof (cases "row_match ms")
    case None
    with Cons show ?thesis by (simp add: map_filter_simps)
  next
    case (Some m)
    have am: "append_match sch date m = sch(date \<mapsto> l @ [m])"
      using Cons.prems by (simp add: append_match_def)
    have "each_row date mss (sch(date \<mapsto> l @ [m]))
            = (sch(date \<mapsto> l @ [m]))(date \<mapsto> (l @ [m]) @ List.map_filter row_match mss)"
      by (rule Cons.IH) simp
    then show ?thesis using Some am by (simp add: map_filter_simps)
  qed
qed

lemma day_body_entry: "day_body s sch = sch(day_label s \<mapsto> day_matches s)"
  using each_row_entry[of "sch(day_label s \<mapsto> [])" "day_label s" "[]" "day_rows s"]
  by (simp add: day_body_def day_matches_def Let_def)

lemma each_day_foldl:
  "each_day i days sch = foldl (\<lambda>m s. day_body s m) sch (take (daysToShow - i) days)"
proof (induction days arbitrary: i sch)
  case Nil
  then show ?case by simp
next
  case (Cons s ss)
  show ?case
  proof (cases "i \<ge> daysToShow")
    case True
    then show ?thesis using Cons[of "Suc i" sch] by simp
  next
    case False
    then obtain k where k: "daysToShow - i = Suc k" by (cases "daysToShow - i") auto
    then have "daysToShow - Suc i = k" by simp
    with False k show ?thesis using Cons[of "Suc i" "day_body s sch"] by simp
  qed
qed

lemma foldl_day_body:
  "foldl (\<lambda>m s. day_body s m) sch xs = sch ++ map_of (rev (map day_entry xs))"
proof (induction xs arbitrary: sch)
  case Nil
  then show ?case by simp
next
  case (Cons s ss)
  have "foldl (\<lambda>m s. day_body s m) sch (s # ss)
          = foldl (\<lambda>m s. day_body s m) (day_body s sch) ss"
    by simp
  also have "\<dots> = day_body s sch ++ map_of (rev (map day_entry ss))"
    by (rule Cons)
  also have "\<dots> = sch(day_label s \<mapsto> day_matches s) ++ map_of (rev (map day_entry ss))"
    by (simp only: day_body_entry)
  also have "\<dots> = sch ++ map_of (rev (map day_entry (s # ss)))"
    by (simp add: day_entry_def map_add_assoc[symmetric] map_add_upd)
  finally show ?case .
qed

lemma parsed_schedule:
  "each_day 0 days Map.empty = map_of (rev (map day_entry (take daysToShow days)))"
  by (simp add: each_day_foldl foldl_day_body)

lemma refresh_document:
  "schedule (snd (refreshSchedule (Response (Document days)) now c))
     = map_of (rev (map day_entry (take daysToShow days)))"
  by (simp add: refreshSchedule_def deferred_def Let_def parsed_schedule)

lemma map_of_rev_last:
  assumes "j < length xs" and "\<forall>k. j < k \<and> k < length xs \<longrightarrow> fst (xs ! k) \<noteq> fst (xs ! j)"
  shows "map_of (rev xs) (fst (xs ! j)) = Some (snd (xs ! j))"
proof -
  have xs: "xs = take j xs @ xs ! j # drop (Suc j) xs"
    using assms(1) by (rule id_take_nth_drop)
  have "fst (xs ! j) \<notin> fst ` set (drop (Suc j) xs)"
  proof
    assume "fst (xs ! j) \<in> fst ` set (drop (Suc j) xs)"
    then obtain e where e: "e \<in> set (drop (Suc j) xs)" "fst e = fst (xs ! j)" by auto
    then obtain n where n: "n < length (drop (Suc j) xs)" "drop (Suc j) xs ! n = e"
      by (auto simp: in_set_conv_nth)
    then have "Suc j + n < length xs" "xs ! (Suc j + n) = e" by auto
    with assms(2) e(2) show False by (metis less_add_Suc1 add_Suc)
  qed
  then have none: "map_of (rev (drop (Suc j) xs)) (fst (xs ! j)) = None"
    by (simp add: map_of_eq_None_iff)
  have "map_of (rev xs) = map_of (rev (drop (Suc j) xs) @ (xs ! j) # rev (take j xs))"
    by (subst xs) simp
  then show ?thesis using none by (simp add: map_add_def split: option.splits)
qed

section \<open>The cache and concurrent requests: facts\<close>

lemma Sub_gt_cacheDuration: "Sub t u > cacheDuration \<longleftrightarrow> t - u > cacheDuration"
  by (simp add: Sub_def cacheDuration_def Hour_def maxDuration_def minDuration_def Let_def)

lemma filter_update_count:
  "i < length xs \<Longrightarrow>
   length (filter P (xs[i := y])) + (if P (xs ! i) then 1 else 0)
     = length (filter P xs) + (if P y then 1 else 0)"
proof (induction xs arbitrary: i)
  case Nil
  then show ?case by simp
next
  case (Cons x xs)
  show ?case
  proof (cases i)
    case 0
    then show ?thesis by simp
  next
    case (Suc j)
    with Cons.prems have "j < length xs" by simp
    from Cons.IH[OF this] Suc show ?thesis by simp
  qed
qed

lemma set_update_no: "a \<notin> set xs \<Longrightarrow> a \<noteq> y \<Longrightarrow> a \<notin> set (xs[i := y])"
  by (meson in_set_conv_nth insertE set_update_subset_insert subsetD)

lemma step_balance:
  assumes "Checking \<notin> set (pcs s)"
  shows "fetches (shared (step ev s)) + pending (step ev s) = fetches (shared s) + pending s
         \<and> Checking \<notin> set (pcs (step ev s))"
proof -
  obtain i now got where ev: "ev = (i, now, got)" by (cases ev) auto
  show ?thesis
  proof (cases "i < length (pcs s)")
    case False
    then show ?thesis using assms by (simp add: step_def ev)
  next
    case True
    let ?P = "\<lambda>p. p = Waiting \<or> p = Holding"
    have nc: "pcs s ! i \<noteq> Checking" using assms True by (metis nth_mem)
    show ?thesis
    proof (cases "pcs s ! i")
      case Checking
      with nc show ?thesis by simp
    next
      case Waiting
      show ?thesis
      proof (cases "locked s")
        case True
        then show ?thesis using assms Waiting \<open>i < length (pcs s)\<close> by (simp add: step_def ev)
      next
        case False
        have "length (filter ?P ((pcs s)[i := Holding])) = length (filter ?P (pcs s))"
          using filter_update_count[OF True, of ?P Holding] Waiting by simp
        moreover have "Checking \<notin> set ((pcs s)[i := Holding])"
          using assms by (intro set_update_no) simp_all
        ultimately show ?thesis using False Waiting True
          by (simp add: step_def ev pending_def)
      qed
    next
      case Holding
      have "length (filter ?P ((pcs s)[i := Finished])) + 1 = length (filter ?P (pcs s))"
        using filter_update_count[OF True, of ?P Finished] Holding by simp
      moreover have "Checking \<notin> set ((pcs s)[i := Finished])"
        using assms by (intro set_update_no) simp_all
      moreover have "fetches (snd (refreshSchedule got now (shared s))) = fetches (shared s) + 1"
        by (simp add: refreshSchedule_def deferred_def Let_def split: fetched.splits document.splits)
      ultimately show ?thesis using Holding True
        by (simp add: step_def ev pending_def)
    next
      case Finished
      then show ?thesis using assms True by (simp add: step_def ev)
    qed
  qed
qed

lemma run_balance:
  "Checking \<notin> set (pcs s) \<Longrightarrow>
   fetches (shared (run evs s)) + pending (run evs s) = fetches (shared s) + pending s"
proof (induction evs arbitrary: s)
  case Nil
  then show ?case by (simp add: run_def)
next
  case (Cons ev evs)
  have r: "run (ev # evs) s = run evs (step ev s)" by (simp add: run_def)
  have b: "fetches (shared (step ev s)) + pending (step ev s) = fetches (shared s) + pending s"
    and c: "Checking \<notin> set (pcs (step ev s))"
    using step_balance[OF Cons.prems, of ev] by simp_all
  have "fetches (shared (run evs (step ev s))) + pending (run evs (step ev s))
          = fetches (shared (step ev s)) + pending (step ev s)"
    by (rule Cons.IH[OF c])
  then show ?case by (simp only: r b)
qed

lemma step_lock:
  assumes "holding s = (if locked s then 1 else 0)"
  shows "holding (step ev s) = (if locked (step ev s) then 1 else 0)"
proof -
  obtain i now got where ev: "ev = (i, now, got)" by (cases ev) auto
  let ?H = "\<lambda>p. p = Holding"
  show ?thesis
  proof (cases "i < length (pcs s)")
    case False
    then show ?thesis using assms by (simp add: step_def ev)
  next
    case True
    note upd = filter_update_count[OF True, of ?H]
    show ?thesis
    proof (cases "pcs s ! i")
      case Checking
      have "length (filter ?H ((pcs s)[i := Waiting])) = length (filter ?H (pcs s))"
        using upd[of Waiting] Checking by simp
      moreover have "length (filter ?H ((pcs s)[i := Finished])) = length (filter ?H (pcs s))"
        using upd[of Finished] Checking by simp
      ultimately show ?thesis using assms Checking True
        by (auto simp: step_def ev holding_def split: if_splits)
    next
      case Waiting
      show ?thesis
      proof (cases "locked s")
        case True
        then show ?thesis using assms Waiting \<open>i < length (pcs s)\<close> by (simp add: step_def ev)
      next
        case False
        have "length (filter ?H ((pcs s)[i := Holding])) = length (filter ?H (pcs s)) + 1"
          using upd[of Holding] Waiting by simp
        then show ?thesis using assms False Waiting True
          by (auto simp: step_def ev holding_def split: if_splits)
      qed
    next
      case Holding
      have h: "length (filter ?H ((pcs s)[i := Finished])) + 1 = length (filter ?H (pcs s))"
        using upd[of Finished] Holding by simp
      then have "locked s" using assms by (auto simp: holding_def split: if_splits)
      with h assms have "length (filter ?H ((pcs s)[i := Finished])) = 0"
        by (simp add: holding_def)
      then show ?thesis using Holding True
        by (auto simp: step_def ev holding_def)
    next
      case Finished
      then show ?thesis using assms True by (simp add: step_def ev)
    qed
  qed
qed

lemma run_lock:
  "holding s = (if locked s then 1 else 0) \<Longrightarrow>
   holding (run evs s) = (if locked (run evs s) then 1 else 0)"
proof (induction evs arbitrary: s)
  case Nil
  then show ?case by (simp add: run_def)
next
  case (Cons ev evs)
  have r: "run (ev # evs) s = run evs (step ev s)" by (simp add: run_def)
  have "holding (run evs (step ev s)) = (if locked (run evs (step ev s)) then 1 else 0)"
    by (rule Cons.IH) (rule step_lock[OF Cons.prems])
  then show ?case by (simp only: r)
qed

section \<open>Claims\<close>

subsection \<open>C1: the refresh timestamp after a failed refresh\<close>

text \<open>
  C1, as the code has it: the deferred function of \<^verbatim>\<open>refreshSchedule\<close> sets
  \<^verbatim>\<open>lastRefresh\<close> to the current time on every way out, whether the fetch failed, the
  document did not parse or the refresh went through; the next staleness-gated request
  therefore refreshes only once more than \<open>cacheDuration\<close> has passed since that time.
\<close>

theorem refresh_always_sets_lastRefresh:
  "lastRefresh (snd (refreshSchedule got now c)) = now
   \<and> refreshScheduleIfNeeded now1 got1 now2 (snd (refreshSchedule got now c))
       = (if now1 - now > cacheDuration
          then refreshSchedule got1 now2 (snd (refreshSchedule got now c))
          else (Returned, snd (refreshSchedule got now c)))"
proof -
  have l: "lastRefresh (snd (refreshSchedule got now c)) = now"
    by (simp add: refreshSchedule_def deferred_def Let_def split: fetched.splits document.splits)
  show ?thesis
    using Sub_gt_cacheDuration[of now1 now] by (simp add: l refreshScheduleIfNeeded_def Let_def)
qed

text \<open>
  C1 as stated fails: a fetch that fails at 2024-01-01T00:00:00Z on the initial cache
  moves \<^verbatim>\<open>lastRefresh\<close> from the zero time to that instant, and the request that comes
  one second later does not fetch again (the only fetch counted is the failed one).
\<close>

theorem failed_refresh_moves_lastRefresh:
  "lastRefresh (snd (refreshSchedule (GetFailed ''timeout'') new_year_2024 init_cache))
     \<noteq> lastRefresh init_cache
   \<and> refreshScheduleIfNeeded (new_year_2024 + 1000000000) (Response (Document two_days))
         (new_year_2024 + 2000000000)
         (snd (refreshSchedule (GetFailed ''timeout'') new_year_2024 init_cache))
       = (Returned, snd (refreshSchedule (GetFailed ''timeout'') new_year_2024 init_cache))
   \<and> fetches (snd (refreshSchedule (GetFailed ''timeout'') new_year_2024 init_cache)) = 1"
  by (simp add: refreshSchedule_def refreshScheduleIfNeeded_def deferred_def init_cache_def Sub_def
      cacheDuration_def Hour_def maxDuration_def minDuration_def new_year_2024_def)

subsection \<open>C2: the snapshot after a failed refresh\<close>

text \<open>
  C2 at a document that does not parse, eleven hours after the last refresh: the cache,
  which held one day with one match, is left with an empty schedule, and the call ends in
  a panic; a failed fetch on the same cache returns and leaves the schedule as it was.
\<close>

theorem parse_failure_empties_schedule:
  "schedule (snd (refreshSchedule (Response (ParseFailed ''unexpected EOF''))
       (new_year_2024 + 11 * Hour) filled_cache)) = Map.empty
   \<and> schedule filled_cache (''2024-01-01 - M'' @ [CHR 0xC3, CHR 0xA5] @ ''ndag'')
       = Some [premier_match]
   \<and> fst (refreshSchedule (Response (ParseFailed ''unexpected EOF''))
       (new_year_2024 + 11 * Hour) filled_cache) = Panicked
   \<and> schedule (snd (refreshSchedule (GetFailed ''timeout'') (new_year_2024 + 11 * Hour) filled_cache))
       = schedule filled_cache
   \<and> fst (refreshSchedule (GetFailed ''timeout'') (new_year_2024 + 11 * Hour) filled_cache)
       = Returned"
  by (simp add: refreshSchedule_def deferred_def filled_cache_def)

subsection \<open>C3: when the staleness-gated operation refreshes\<close>

text \<open>
  C3, as the code has it: \<^verbatim>\<open>refreshScheduleIfNeeded\<close> refreshes (and so fetches, once)
  exactly when the time since the last refresh is greater than the 10 hours of
  \<open>cacheDuration\<close>; when it is 10 hours or less the call returns with the cache as it
  was and nothing is fetched.
\<close>

theorem refresh_iff_elapsed_exceeds_ttl:
  "refreshScheduleIfNeeded now got now' c
     = (if now - lastRefresh c > 10 * Hour then refreshSchedule got now' c else (Returned, c))
   \<and> fetches (snd (refreshSchedule got now' c)) = fetches c + 1
   \<and> cacheDuration = 10 * Hour"
proof -
  have "fetches (snd (refreshSchedule got now' c)) = fetches c + 1"
    by (simp add: refreshSchedule_def deferred_def Let_def split: fetched.splits document.splits)
  then show ?thesis
    using Sub_gt_cacheDuration[of now "lastRefresh c"]
    by (simp add: refreshScheduleIfNeeded_def Let_def cacheDuration_def)
qed

text \<open>
  C3 as stated fails where the elapsed time equals the TTL: exactly 10 hours after the
  last refresh the cache is Stale in the claim's sense, and the call returns with the
  cache as it was, without a fetch.
\<close>

theorem no_refresh_at_exactly_ttl:
  "(new_year_2024 + 10 * Hour) - lastRefresh filled_cache \<ge> cacheDuration
   \<and> refreshScheduleIfNeeded (new_year_2024 + 10 * Hour) (Response (Document two_days))
         (new_year_2024 + 10 * Hour + 1000000000) filled_cache
       = (Returned, filled_cache)"
  by (simp add: refreshScheduleIfNeeded_def Sub_def filled_cache_def cacheDuration_def Hour_def
      maxDuration_def minDuration_def new_year_2024_def)

subsection \<open>C4: the league filter\<close>

text \<open>
  C4: a row gives no record exactly when its normalised league contains none of the
  configured leagues; the record of a row keeps the normalised league, which contains one
  of them; and every record of a schedule built by \<^verbatim>\<open>refreshSchedule\<close> has a league
  that contains one of them. Containment is \<open>Contains\<close>, a byte-wise substring test.
\<close>

theorem match_only_for_interesting_league:
  "(row_match ms = None \<longleftrightarrow> \<not> (\<exists>l \<in> set leagues. Contains (row_league ms) l))
   \<and> (\<forall>m. row_match ms = Some m \<longrightarrow>
          League m = row_league ms \<and> (\<exists>l \<in> set leagues. Contains (League m) l))
   \<and> (\<forall>date ms' m.
          schedule (snd (refreshSchedule (Response (Document days)) now c)) date = Some ms'
          \<and> m \<in> set ms' \<longrightarrow> (\<exists>l \<in> set leagues. Contains (League m) l))"
proof (intro conjI allI impI)
  show "row_match ms = None \<longleftrightarrow> \<not> (\<exists>l \<in> set leagues. Contains (row_league ms) l)"
    by (simp add: row_match_def Let_def interested_iff)
next
  fix m assume "row_match ms = Some m"
  then show "League m = row_league ms"
    by (auto simp: row_match_def Let_def split: if_splits)
next
  fix m assume "row_match ms = Some m"
  then show "\<exists>l \<in> set leagues. Contains (League m) l"
    by (auto simp: row_match_def Let_def interested_iff split: if_splits)
next
  fix date ms' m
  assume a: "schedule (snd (refreshSchedule (Response (Document days)) now c)) date = Some ms'
          \<and> m \<in> set ms'"
  then have "map_of (rev (map day_entry (take daysToShow days))) date = Some ms'"
    by (simp add: refresh_document)
  then have "(date, ms') \<in> set (map day_entry (take daysToShow days))"
    by (auto dest: map_of_SomeD)
  then obtain s where "ms' = day_matches s" by (auto simp: day_entry_def)
  with a have "m \<in> set (List.map_filter row_match (day_rows s))"
    by (simp add: day_matches_def)
  then obtain r where "row_match r = Some m"
    by (auto simp: List.map_filter_def split: option.splits)
  then show "\<exists>l \<in> set leagues. Contains (League m) l"
    by (auto simp: row_match_def Let_def interested_iff split: if_splits)
qed

text \<open>
  C4 on the sample rows: the Premier League row gives its record, whose league has lost
  the link text and the line break; the Ligue 1 row gives none, nor does a league written
  in lower case; ``Premier League 2'' contains the configured league and gives a record;
  the schedule of the sample page holds the one record under the second day.
\<close>

theorem match_only_for_interesting_league_witness:
  "row_match premier_row = Some premier_match
   \<and> (\<exists>l \<in> set leagues. Contains (League premier_match) l)
   \<and> row_match ligue1_row = None
   \<and> \<not> (\<exists>l \<in> set leagues. Contains (row_league ligue1_row) l)
   \<and> row_match lower_row = None
   \<and> row_match premier2_row \<noteq> None
   \<and> schedule (snd (refreshSchedule (Response (Document two_days)) new_year_2024 init_cache))
        (''2024-01-01 - M'' @ [CHR 0xC3, CHR 0xA5] @ ''ndag'') = Some [premier_match]
   \<and> premier_match \<in> set [premier_match]"
proof -
  have p: "row_match premier_row = Some premier_match" by code_simp
  have l: "row_match ligue1_row = None" by code_simp
  have lo: "row_match lower_row = None" by code_simp
  have p2: "row_match premier2_row \<noteq> None" by code_simp
  have s: "schedule (snd (refreshSchedule (Response (Document two_days)) new_year_2024 init_cache))
        (''2024-01-01 - M'' @ [CHR 0xC3, CHR 0xA5] @ ''ndag'') = Some [premier_match]"
    by code_simp
  have "\<exists>l \<in> set leagues. Contains (League premier_match) l"
    using match_only_for_interesting_league[of premier_row two_days new_year_2024 init_cache] p
    by blast
  moreover have "\<not> (\<exists>l \<in> set leagues. Contains (row_league ligue1_row) l)"
    using match_only_for_interesting_league[of ligue1_row two_days new_year_2024 init_cache] l
    by blast
  ultimately show ?thesis using p l lo p2 s by simp
qed

subsection \<open>C5: the limit on days\<close>

text \<open>
  C5: for every document the schedule built by \<^verbatim>\<open>refreshSchedule\<close> has at most
  \<open>daysToShow\<close>, that is 10, keys; its keys are the labels of the first 10 day-headers;
  and it is the schedule that the first 10 day-headers alone give.
\<close>

theorem at_most_daysToShow_entries:
  "card (dom (schedule (snd (refreshSchedule (Response (Document days)) now c)))) \<le> daysToShow
   \<and> daysToShow = 10
   \<and> dom (schedule (snd (refreshSchedule (Response (Document days)) now c)))
       = day_label ` set (take 10 days)
   \<and> schedule (snd (refreshSchedule (Response (Document days)) now c))
       = schedule (snd (refreshSchedule (Response (Document (take 10 days))) now c))"
proof -
  let ?sch = "schedule (snd (refreshSchedule (Response (Document days)) now c))"
  have "dom ?sch = fst ` day_entry ` set (take 10 days)"
    by (simp add: refresh_document dom_map_of_conv_image_fst daysToShow_def)
  also have "\<dots> = day_label ` set (take 10 days)"
    by (simp add: image_image day_entry_def)
  finally have d: "dom ?sch = day_label ` set (take 10 days)" .
  have "card (day_label ` set (take 10 days)) \<le> card (set (take 10 days))"
    by (rule card_image_le) simp
  also have "\<dots> \<le> length (take 10 days)" by (rule card_length)
  also have "\<dots> \<le> 10" by simp
  finally have "card (dom ?sch) \<le> daysToShow" by (simp only: d daysToShow_def)
  moreover have "?sch = schedule (snd (refreshSchedule (Response (Document (take 10 days))) now c))"
    by (simp add: refresh_document daysToShow_def)
  ultimately show ?thesis using d by (simp add: daysToShow_def)
qed

subsection \<open>C6: the normalisation of the league\<close>

text \<open>
  C6: normalising a string twice gives what normalising it once gives, for every string.
\<close>

theorem normalize_idempotent: "normalize (normalize s) = normalize s"
proof -
  have sp: "spaced (normalize s)"
    unfolding normalize_def Trim_def
    by (intro spaced_rev_dropWhile_rev spaced_dropWhile spaced_collapse)
  have "Replace (normalize s) [CHR 0x0A] '' '' = normalize s"
    by (rule Replace_absent) (simp add: Contains_single spaced_no_nl[OF sp])
  moreover have "multipleSpaces_ReplaceAllString (normalize s) = normalize s"
    by (rule collapse_spaced[OF sp])
  moreover have "Trim (normalize s) '' '' = normalize s"
    unfolding normalize_def by (rule Trim_Trim)
  ultimately show ?thesis by (simp add: normalize_def[of "normalize s"])
qed

subsection \<open>C7: the label of a day whose date parses\<close>

text \<open>
  C7: when the date of a day-header parses, the label of the day is that date as it is
  written, then \<open>'' - ''\<close>, then the entry of \<^verbatim>\<open>dayNames\<close> for the English name of the
  date's weekday, which is one of the seven Swedish names; and a header with the
  identifier \<^verbatim>\<open>match-day-2024-01-01\<close> has the label of that date and of Monday.
\<close>

theorem iso_date_label:
  "(Parse (day_date s) = Some t \<longrightarrow>
      day_label s = day_date s @ '' - '' @ dayNames_at (longDayNames ! Weekday t)
      \<and> dayNames_at (longDayNames ! Weekday t) \<in> set weekdays_sv)
   \<and> day_label \<lparr>day_id = Some ''match-day-2024-01-01'', day_rows = rs\<rparr>
       = ''2024-01-01 - M'' @ [CHR 0xC3, CHR 0xA5] @ ''ndag''"
proof (intro conjI impI)
  assume p: "Parse (day_date s) = Some t"
  then show "day_label s = day_date s @ '' - '' @ dayNames_at (longDayNames ! Weekday t)"
    using Parse_Format[OF p] by (simp add: day_label_def day_time_def Format_Monday_def)
next
  show "dayNames_at (longDayNames ! Weekday t) \<in> set weekdays_sv"
    using dayNames_at_long[OF Weekday_lt] by simp
next
  have d: "day_date \<lparr>day_id = Some ''match-day-2024-01-01'', day_rows = rs\<rparr> = ''2024-01-01''"
    unfolding day_date_def Attr_def by code_simp
  have p: "Parse ''2024-01-01'' = Some \<lparr>Year = 2024, Month = 1, Day = 1\<rparr>" by code_simp
  have f: "Format_date \<lparr>Year = 2024, Month = 1, Day = 1\<rparr>
             @ dayNames_at (Format_Monday \<lparr>Year = 2024, Month = 1, Day = 1\<rparr>)
           = ''2024-01-01 - M'' @ [CHR 0xC3, CHR 0xA5] @ ''ndag''" by code_simp
  show "day_label \<lparr>day_id = Some ''match-day-2024-01-01'', day_rows = rs\<rparr>
       = ''2024-01-01 - M'' @ [CHR 0xC3, CHR 0xA5] @ ''ndag''"
    unfolding day_label_def day_time_def d p using f by simp
qed

text \<open>C7 on the 29th of February 2024, a Thursday.\<close>

theorem iso_date_label_witness:
  "Parse (day_date leap_day) = Some \<lparr>Year = 2024, Month = 2, Day = 29\<rparr>
   \<and> day_label leap_day = ''2024-02-29 - Torsdag''"
proof -
  have p: "Parse (day_date leap_day) = Some \<lparr>Year = 2024, Month = 2, Day = 29\<rparr>"
    by code_simp
  have d: "day_date leap_day = ''2024-02-29''" by code_simp
  have w: "dayNames_at (longDayNames ! Weekday \<lparr>Year = 2024, Month = 2, Day = 29\<rparr>) = ''Torsdag''"
    by code_simp
  have "day_label leap_day = day_date leap_day @ '' - ''
          @ dayNames_at (longDayNames ! Weekday \<lparr>Year = 2024, Month = 2, Day = 29\<rparr>)"
    using iso_date_label[of leap_day "\<lparr>Year = 2024, Month = 2, Day = 29\<rparr>"] p by blast
  then show ?thesis using p by (simp add: d w)
qed

subsection \<open>C8: a day-header whose date does not parse\<close>

text \<open>
  C8: when the date of one of the first \<open>daysToShow\<close> day-headers does not parse, its
  label is the zero time formatted, \<open>0001-01-01 - \<close> with the Swedish Monday, and the
  parse goes on: \<^verbatim>\<open>refreshSchedule\<close> returns, every one of the first \<open>daysToShow\<close>
  day-headers has its label in the schedule, and a label that no later header repeats is
  bound to the records of the rows of its day.
\<close>

theorem malformed_date_is_not_fatal:
  assumes "i < length days" and "i < daysToShow" and "Parse (day_date (days ! i)) = None"
  shows "day_label (days ! i) = ''0001-01-01 - M'' @ [CHR 0xC3, CHR 0xA5] @ ''ndag''
     \<and> fst (refreshSchedule (Response (Document days)) now c) = Returned
     \<and> (\<forall>j. j < length days \<and> j < daysToShow \<longrightarrow>
          day_label (days ! j) \<in> dom (schedule (snd (refreshSchedule (Response (Document days)) now c)))
          \<and> ((\<forall>k. j < k \<and> k < length days \<and> k < daysToShow
                 \<longrightarrow> day_label (days ! k) \<noteq> day_label (days ! j))
               \<longrightarrow> schedule (snd (refreshSchedule (Response (Document days)) now c))
                     (day_label (days ! j)) = Some (day_matches (days ! j))))"
proof (intro conjI allI impI)
  show "day_label (days ! i) = ''0001-01-01 - M'' @ [CHR 0xC3, CHR 0xA5] @ ''ndag''"
    using assms(3) zero_label by (simp add: day_label_def day_time_def)
next
  show "fst (refreshSchedule (Response (Document days)) now c) = Returned"
    by (simp add: refreshSchedule_def Let_def)
next
  fix j assume j: "j < length days \<and> j < daysToShow"
  let ?xs = "map day_entry (take daysToShow days)"
  have len: "j < length ?xs" using j by simp
  have nth: "?xs ! j = day_entry (days ! j)" using j by simp
  have "day_entry (days ! j) \<in> set ?xs" using len nth by (metis nth_mem)
  then have "day_label (days ! j) \<in> fst ` set ?xs"
    by (force simp: day_entry_def)
  then show "day_label (days ! j) \<in> dom (schedule (snd (refreshSchedule (Response (Document days)) now c)))"
    by (simp add: refresh_document dom_map_of_conv_image_fst del: set_map)
next
  fix j
  assume j: "j < length days \<and> j < daysToShow"
    and last: "\<forall>k. j < k \<and> k < length days \<and> k < daysToShow
                 \<longrightarrow> day_label (days ! k) \<noteq> day_label (days ! j)"
  let ?xs = "map day_entry (take daysToShow days)"
  have len: "j < length ?xs" using j by simp
  have "\<forall>k. j < k \<and> k < length ?xs \<longrightarrow> fst (?xs ! k) \<noteq> fst (?xs ! j)"
    using last j by (simp add: day_entry_def)
  from map_of_rev_last[OF len this]
  show "schedule (snd (refreshSchedule (Response (Document days)) now c))
          (day_label (days ! j)) = Some (day_matches (days ! j))"
    using j by (simp add: refresh_document day_entry_def)
qed

text \<open>
  C8 on the sample page, whose first day has the identifier \<^verbatim>\<open>match-day-tomorrow\<close>: the
  first day is kept under the zero-time label with no record, and the second day, after
  it, has its Premier League record.
\<close>

theorem malformed_date_is_not_fatal_witness:
  "0 < length two_days \<and> 0 < daysToShow \<and> Parse (day_date (two_days ! 0)) = None
   \<and> day_label (two_days ! 0) = ''0001-01-01 - M'' @ [CHR 0xC3, CHR 0xA5] @ ''ndag''
   \<and> schedule (snd (refreshSchedule (Response (Document two_days)) new_year_2024 init_cache))
        (day_label (two_days ! 0)) = Some []
   \<and> schedule (snd (refreshSchedule (Response (Document two_days)) new_year_2024 init_cache))
        (day_label (two_days ! 1)) = Some [premier_match]"
proof -
  have h1: "0 < length two_days" by (simp add: two_days_def)
  have h2: "0 < daysToShow" by (simp add: daysToShow_def)
  have h3: "Parse (day_date (two_days ! 0)) = None" by code_simp
  have l1: "day_label (two_days ! 1) = ''2024-01-01 - M'' @ [CHR 0xC3, CHR 0xA5] @ ''ndag''"
    by code_simp
  have m0: "day_matches (two_days ! 0) = []" by code_simp
  have m1: "day_matches (two_days ! 1) = [premier_match]" by code_simp
  note t = malformed_date_is_not_fatal[OF h1 h2 h3, of new_year_2024 init_cache]
  from t have l0: "day_label (two_days ! 0) = ''0001-01-01 - M'' @ [CHR 0xC3, CHR 0xA5] @ ''ndag''"
    by blast
  have n: "length two_days = 2" by (simp add: two_days_def)
  have d: "day_label (two_days ! 1) \<noteq> day_label (two_days ! 0)"
    unfolding l0 l1 by simp
  have k: "\<forall>k. 0 < k \<and> k < length two_days \<and> k < daysToShow
             \<longrightarrow> day_label (two_days ! k) \<noteq> day_label (two_days ! 0)"
  proof (intro allI impI)
    fix k assume "0 < k \<and> k < length two_days \<and> k < daysToShow"
    then have "k = 1" using n by simp
    then show "day_label (two_days ! k) \<noteq> day_label (two_days ! 0)" using d by simp
  qed
  have k1: "\<forall>k. 1 < k \<and> k < length two_days \<and> k < daysToShow
             \<longrightarrow> day_label (two_days ! k) \<noteq> day_label (two_days ! 1)"
    using n by auto
  have "schedule (snd (refreshSchedule (Response (Document two_days)) new_year_2024 init_cache))
          (day_label (two_days ! 0)) = Some (day_matches (two_days ! 0))"
    using t k h1 h2 by blast
  moreover have "schedule (snd (refreshSchedule (Response (Document two_days)) new_year_2024 init_cache))
          (day_label (two_days ! 1)) = Some (day_matches (two_days ! 1))"
    using t k1 n h2 by (simp add: daysToShow_def)
  ultimately show ?thesis using h1 h2 h3 l0 m0 m1 by simp
qed

subsection \<open>C9: concurrent requests that meet an expired cache\<close>

text \<open>
  C9, as the code has it: the lock lets one request refresh at a time, and staleness is
  not looked at again once the lock is held. So when \<open>n\<close> requests have all seen the
  cache expired and are waiting for the free lock, then whatever the order of their
  steps: at every moment at most one request is between \<^verbatim>\<open>mu.Lock()\<close> and the deferred
  \<^verbatim>\<open>mu.Unlock()\<close>, and one is there exactly when the lock is taken; the fetches made so
  far and the requests still to refresh add up to \<open>n\<close>; and once all have finished the
  number of fetches has grown by \<open>n\<close>: each of them fetched.
\<close>

theorem every_waiting_request_fetches:
  assumes "pcs s = replicate n Waiting" and "\<not> locked s"
  shows "holding (run evs s) \<le> 1
     \<and> holding (run evs s) = (if locked (run evs s) then 1 else 0)
     \<and> fetches (shared (run evs s)) + pending (run evs s) = fetches (shared s) + n
     \<and> (pcs (run evs s) = replicate n Finished
          \<longrightarrow> fetches (shared (run evs s)) = fetches (shared s) + n)"
proof -
  have c: "Checking \<notin> set (pcs s)" using assms(1) by simp
  have p: "pending s = n" using assms(1) by (simp add: pending_def)
  have h: "holding s = (if locked s then 1 else 0)"
    using assms by (simp add: holding_def)
  have l: "holding (run evs s) = (if locked (run evs s) then 1 else 0)"
    by (rule run_lock[OF h])
  have b: "fetches (shared (run evs s)) + pending (run evs s) = fetches (shared s) + n"
    using run_balance[OF c, of evs] p by simp
  have f: "pcs (run evs s) = replicate n Finished
          \<longrightarrow> fetches (shared (run evs s)) = fetches (shared s) + n"
  proof
    assume e: "pcs (run evs s) = replicate n Finished"
    have "pending (run evs s) = 0" unfolding pending_def e by simp
    with b show "fetches (shared (run evs s)) = fetches (shared s) + n" by simp
  qed
  have "holding (run evs s) \<le> 1" using l by (simp split: if_splits)
  with l b f show ?thesis by blast
qed

text \<open>
  C9 as the code has it, on the two sample requests after both have checked: both wait
  for the free lock, after two more steps one holds it and the other still waits, and
  when both have finished two fetches have been made.
\<close>

theorem every_waiting_request_fetches_witness:
  "pcs (run (take 2 stampede) two_requests) = replicate 2 Waiting
   \<and> \<not> locked (run (take 2 stampede) two_requests)
   \<and> pcs (run (drop 2 stampede) (run (take 2 stampede) two_requests)) = replicate 2 Finished
   \<and> fetches (shared (run (drop 2 stampede) (run (take 2 stampede) two_requests)))
       = fetches (shared (run (take 2 stampede) two_requests)) + 2
   \<and> pcs (run (take 4 stampede) two_requests) = [Holding, Waiting]
   \<and> holding (run (take 2 (drop 2 stampede)) (run (take 2 stampede) two_requests)) \<le> 1"
proof -
  have a: "pcs (run (take 2 stampede) two_requests) = replicate 2 Waiting"
    by (simp add: run_def stampede_def two_requests_def step_def init_cache_def Sub_def
        cacheDuration_def Hour_def maxDuration_def minDuration_def numeral_2_eq_2 new_year_2024_def)
  have u: "\<not> locked (run (take 2 stampede) two_requests)"
    by (simp add: run_def stampede_def two_requests_def step_def init_cache_def Sub_def
        cacheDuration_def Hour_def maxDuration_def minDuration_def numeral_2_eq_2 new_year_2024_def)
  have b: "pcs (run (drop 2 stampede) (run (take 2 stampede) two_requests)) = replicate 2 Finished"
    by (simp add: run_def stampede_def two_requests_def step_def init_cache_def Sub_def
        cacheDuration_def Hour_def maxDuration_def minDuration_def numeral_2_eq_2 new_year_2024_def)
  have d: "pcs (run (take 4 stampede) two_requests) = [Holding, Waiting]"
    by (simp add: run_def stampede_def two_requests_def step_def init_cache_def Sub_def
        cacheDuration_def Hour_def maxDuration_def minDuration_def numeral_2_eq_2 new_year_2024_def)
  from every_waiting_request_fetches[OF a u, of "drop 2 stampede"] b
  have "fetches (shared (run (drop 2 stampede) (run (take 2 stampede) two_requests)))
       = fetches (shared (run (take 2 stampede) two_requests)) + 2" by blast
  moreover from every_waiting_request_fetches[OF a u, of "take 2 (drop 2 stampede)"]
  have "holding (run (take 2 (drop 2 stampede)) (run (take 2 stampede) two_requests)) \<le> 1"
    by blast
  ultimately show ?thesis using a u b d by simp
qed

text \<open>
  C9 as stated fails: two requests that both see the initial cache expired before either
  takes the lock end with two fetches, the second made after the first has refreshed
  and released the lock.
\<close>

theorem stampede_two_fetches:
  "pcs (run (take 2 stampede) two_requests) = [Waiting, Waiting]
   \<and> fetches (shared (run stampede two_requests)) = 2"
  by (simp add: run_def stampede_def two_requests_def step_def init_cache_def Sub_def
      cacheDuration_def Hour_def maxDuration_def minDuration_def refreshSchedule_def deferred_def
      new_year_2024_def)

subsection \<open>C10: the weekday of a label is never missing\<close>

text \<open>
  C10: for every day-header, with a date that parses or not, the name looked up in
  \<^verbatim>\<open>dayNames\<close> is a key of it, and the part of the label after the formatted date is one
  of the seven Swedish names and is not empty.
\<close>

theorem weekday_suffix_never_empty:
  "day_label s = Format_date (day_time s) @ dayNames_at (Format_Monday (day_time s))
   \<and> map_of dayNames (Format_Monday (day_time s)) \<noteq> None
   \<and> dayNames_at (Format_Monday (day_time s)) \<in> set weekdays_sv
   \<and> dayNames_at (Format_Monday (day_time s)) \<noteq> []"
  using dayNames_at_long[OF Weekday_lt, of "day_time s"]
  by (simp add: day_label_def Format_Monday_def)

end
